theory Spec2Isabelle
  imports Main "HOL-Library.Log_Nat" "HOL-Library.Sublist"
begin

section \<open>Strings as Python has them\<close>

text \<open>
  A Python \<open>str\<close> is modelled as a \<open>string\<close>: one \<open>char\<close> per code point, for code
  points below 256. \<open>len\<close> is \<open>length\<close>. Every operation below looks only at ASCII
  characters and copies all others unchanged.
\<close>

definition dquote :: char where
  "dquote = CHR 0x22"

definition squote :: char where
  "squote = CHR 0x27"

definition backslash :: char where
  "backslash = CHR 0x5C"

definition newline :: char where
  "newline = CHR 0x0A"

definition default_name :: string where
  "default_name = ''downloaded_file''"

text \<open>\<open>s.split(c)\<close> for a one-character separator: never the empty list.\<close>

fun split_char :: "char \<Rightarrow> string \<Rightarrow> string list" where
  "split_char c [] = [[]]"
| "split_char c (x # xs) =
     (if x = c then [] # split_char c xs
      else (case split_char c xs of
              [] \<Rightarrow> [[x]]
            | y # ys \<Rightarrow> (x # y) # ys))"

text \<open>\<open>s.strip(chars)\<close>: drop the characters of \<open>chars\<close> from both ends.\<close>

definition strip_where :: "(char \<Rightarrow> bool) \<Rightarrow> string \<Rightarrow> string" where
  "strip_where P s = rev (dropWhile P (rev (dropWhile P s)))"

definition strip_chars :: "string \<Rightarrow> string \<Rightarrow> string" where
  "strip_chars chars s = strip_where (\<lambda>c. c \<in> set chars) s"

text \<open>\<open>s.rfind(c)\<close>: the highest index of \<open>c\<close>, or \<open>-1\<close>.\<close>

fun rfind :: "string \<Rightarrow> char \<Rightarrow> int" where
  "rfind [] c = -1"
| "rfind (x # xs) c =
     (let r = rfind xs c in
      if r \<ge> 0 then r + 1 else if x = c then 0 else -1)"

text \<open>
  \<open>os.path.splitext\<close> of \<open>posixpath\<close> (\<open>genericpath._splitext\<close> with \<open>sep = '/'\<close>, no
  \<open>altsep\<close>, \<open>extsep = '.'\<close>): the extension starts at the last dot, when that dot comes
  after the last separator and some character between the two is not a dot.
\<close>

definition splitext :: "string \<Rightarrow> string \<times> string" where
  "splitext p =
     (let sepIndex = rfind p (CHR ''/'');
          dotIndex = rfind p (CHR ''.'')
      in if dotIndex > sepIndex
            \<and> list_ex (\<lambda>c. c \<noteq> CHR ''.'')
                 (take (nat (dotIndex - (sepIndex + 1))) (drop (nat (sepIndex + 1)) p))
         then (take (nat dotIndex) p, drop (nat dotIndex) p)
         else (p, []))"

section \<open>Filename resolver (\<open>bot/downloader.py\<close>)\<close>

text \<open>The character class \<open>[<>:"/\\|?*\x00-\x1f]\<close> of \<open>sanitize_filename\<close>.\<close>

definition illegal_char :: "char \<Rightarrow> bool" where
  "illegal_char c \<longleftrightarrow>
     c \<in> set ''<>:/|?*'' \<or> c = dquote \<or> c = backslash \<or> (of_char c :: nat) < 0x20"

definition sanitize_filename :: "string \<Rightarrow> string" where
  "sanitize_filename filename =
     (let f1 = map (\<lambda>c. if illegal_char c then CHR ''_'' else c) filename;
          f2 = strip_chars ''. '' f1;
          f3 = (if f2 = [] then default_name else f2)
      in if length f3 > 255
         then (case splitext f3 of (name, ext) \<Rightarrow> take 250 name @ ext)
         else f3)"

definition extract_filename_from_url :: "string \<Rightarrow> string" where
  "extract_filename_from_url url =
     (let path_parts = split_char (CHR ''/'') url;
          f1 = (if path_parts \<noteq> [] then last path_parts else default_name);
          f2 = hd (split_char (CHR ''?'') f1);
          f3 = (if f2 = [] then default_name else f2)
      in sanitize_filename f3)"

text \<open>
  The resolver's rule in the words of the specification: the URL stripped of its query
  string, then the last path segment of what is left, the default name if that segment
  is empty, sanitized.
\<close>

definition spec_url_filename :: "string \<Rightarrow> string" where
  "spec_url_filename url =
     (let no_query = takeWhile (\<lambda>c. c \<noteq> CHR ''?'') url;
          segment = rev (takeWhile (\<lambda>c. c \<noteq> CHR ''/'') (rev no_query))
      in sanitize_filename (if segment = [] then default_name else segment))"

text \<open>
  The first match of \<open>filename\*?=(["\']?)(.+?)\1(?:;|$)\<close> in a header value, as
  \<open>re.findall(...)[0][1]\<close> reads it: the second group of the leftmost match. The
  lazy group takes the fewest characters (none of them a newline) after which the rest
  of the pattern matches; the optional quote is tried first, and given up when no
  closing quote fits. \<open>$\<close> matches at the end and before a final newline.
\<close>

definition at_end :: "string \<Rightarrow> bool" where
  "at_end r = (case r of [] \<Rightarrow> True | c # cs \<Rightarrow> c = CHR '';'' \<or> (c = newline \<and> cs = []))"

definition closing_quote :: "char \<Rightarrow> string \<Rightarrow> bool" where
  "closing_quote q r = (case r of [] \<Rightarrow> False | c # cs \<Rightarrow> c = q \<and> at_end cs)"

fun lazy_group :: "(string \<Rightarrow> bool) \<Rightarrow> string \<Rightarrow> string option" where
  "lazy_group k [] = None"
| "lazy_group k (c # cs) =
     (if c = newline then None
      else if k cs then Some [c]
      else map_option (Cons c) (lazy_group k cs))"

definition match_value :: "string \<Rightarrow> string option" where
  "match_value v =
     (case (case v of
              [] \<Rightarrow> None
            | q # cs \<Rightarrow>
                if q = dquote \<or> q = squote then lazy_group (closing_quote q) cs else None) of
        Some g \<Rightarrow> Some g
      | None \<Rightarrow> lazy_group at_end v)"

fun strip_prefix :: "string \<Rightarrow> string \<Rightarrow> string option" where
  "strip_prefix [] s = Some s"
| "strip_prefix (p # ps) [] = None"
| "strip_prefix (p # ps) (c # cs) = (if p = c then strip_prefix ps cs else None)"

definition match_here :: "string \<Rightarrow> string option" where
  "match_here s =
     (case strip_prefix ''filename'' s of
        None \<Rightarrow> None
      | Some r \<Rightarrow>
          (case strip_prefix ''*='' r of
             Some v \<Rightarrow> match_value v
           | None \<Rightarrow>
               (case strip_prefix ''='' r of
                  Some v \<Rightarrow> match_value v
                | None \<Rightarrow> None)))"

fun first_match :: "string \<Rightarrow> string option" where
  "first_match [] = None"
| "first_match (c # cs) =
     (case match_here (c # cs) of
        Some g \<Rightarrow> Some g
      | None \<Rightarrow> first_match cs)"

text \<open>\<open>s.split("''", 1)[1]\<close> when \<open>"''" in s\<close>: what follows the first two apostrophes.\<close>

fun after_encoding_prefix :: "string \<Rightarrow> string option" where
  "after_encoding_prefix (c # d # r) =
     (if c = squote \<and> d = squote then Some r else after_encoding_prefix (d # r))"
| "after_encoding_prefix _ = None"

type_synonym headers = "string \<rightharpoonup> string"

definition extract_filename_from_headers :: "headers \<Rightarrow> string option" where
  "extract_filename_from_headers hdrs =
     (let content_disposition =
            (case hdrs ''Content-Disposition'' of None \<Rightarrow> [] | Some v \<Rightarrow> v)
      in if content_disposition = [] then None
         else (case first_match content_disposition of
                 Some filename \<Rightarrow>
                   Some (sanitize_filename
                     (case after_encoding_prefix filename of
                        Some rest \<Rightarrow> rest
                      | None \<Rightarrow> filename))
               | None \<Rightarrow> None))"

section \<open>Double-precision arithmetic of the percentage\<close>

text \<open>
  \<open>math.floor(received / total_size * 100)\<close> divides two integers into a \<open>float\<close>,
  multiplies the float by \<open>100\<close> and takes the floor. Both operations round the exact
  result to the nearest binary64 value, ties to even. \<open>fl64\<close> is that rounding on the
  rationals: 53 significant bits, with no bound on the exponent (overflow and subnormal
  numbers are out of reach of a quotient of two byte counts).
\<close>

definition binade :: "rat \<Rightarrow> int" where
  "binade x =
     (case quotient_of x of (p, q) \<Rightarrow>
        let e0 = bitlen p - bitlen q
        in if 2 powi e0 \<le> x then e0 else e0 - 1)"

definition round_half_even :: "rat \<Rightarrow> int" where
  "round_half_even x =
     (let f = \<lfloor>x\<rfloor>; d = x - of_int f
      in if d < 1 / 2 then f
         else if d > 1 / 2 then f + 1
         else if even f then f else f + 1)"

definition fl64 :: "rat \<Rightarrow> rat" where
  "fl64 x =
     (if x = 0 then 0
      else let a = \<bar>x\<bar>; u = 2 powi (binade a - 52)
           in sgn x * of_int (round_half_even (a / u)) * u)"

definition py_percent :: "int \<Rightarrow> int \<Rightarrow> int" where
  "py_percent received total_size =
     \<lfloor>fl64 (fl64 (of_int received / of_int total_size) * 100)\<rfloor>"

section \<open>Streaming transfer engine (\<open>download_file\<close>)\<close>

subsection \<open>\<open>int(...)\<close> of a header value\<close>

definition py_space :: "char \<Rightarrow> bool" where
  "py_space c \<longleftrightarrow> (of_char c :: nat) \<in> {9, 10, 11, 12, 13, 32, 0x85, 0xA0}"

definition is_digit :: "char \<Rightarrow> bool" where
  "is_digit c \<longleftrightarrow> 48 \<le> (of_char c :: nat) \<and> (of_char c :: nat) \<le> 57"

definition digit_value :: "char \<Rightarrow> int" where
  "digit_value c = int (of_char c) - 48"

text \<open>Decimal digits, a single underscore allowed between two digits.\<close>

fun digits :: "bool \<Rightarrow> int \<Rightarrow> string \<Rightarrow> int option" where
  "digits prev acc [] = (if prev then Some acc else None)"
| "digits prev acc (c # cs) =
     (if is_digit c then digits True (acc * 10 + digit_value c) cs
      else if c = CHR ''_'' \<and> prev then digits False acc cs
      else None)"

definition py_int_of_string :: "string \<Rightarrow> int option" where
  "py_int_of_string s =
     (case strip_where py_space s of
        [] \<Rightarrow> None
      | c # cs \<Rightarrow>
          if c = CHR ''-'' then map_option uminus (digits False 0 cs)
          else if c = CHR ''+'' then digits False 0 cs
          else digits False 0 (c # cs))"

subsection \<open>Exceptions\<close>

text \<open>
  What \<open>requests\<close> raises. \<open>ConnectTimeout\<close> is both a \<open>Timeout\<close> and a
  \<open>ConnectionError\<close>; every one of them is a \<open>RequestException\<close>.
\<close>

datatype request_exception =
    ConnectTimeout
  | ReadTimeout
  | HTTPError int string
  | RequestsConnectionError
  | OtherRequestException string

definition is_Timeout :: "request_exception \<Rightarrow> bool" where
  "is_Timeout e \<longleftrightarrow> e = ConnectTimeout \<or> e = ReadTimeout"

definition is_ConnectionError :: "request_exception \<Rightarrow> bool" where
  "is_ConnectionError e \<longleftrightarrow> e = ConnectTimeout \<or> e = RequestsConnectionError"

text \<open>
  What \<open>download_file\<close> lets out: the five exceptions its handlers raise, and the
  \<open>ValueError\<close> of \<open>int\<close> on a literal that is not a number.
\<close>

datatype error =
    TimeoutError int
  | ValueError_HTTP int string
  | ConnectionError
  | RuntimeError request_exception
  | OSError_write
  | ValueError_int string

text \<open>The \<open>except\<close> clauses for request exceptions, in the order of the source.\<close>

definition on_request_exception :: "int \<Rightarrow> request_exception \<Rightarrow> error" where
  "on_request_exception timeout e =
     (if is_Timeout e then TimeoutError timeout
      else (case e of
              HTTPError status_code reason \<Rightarrow> ValueError_HTTP status_code reason
            | _ \<Rightarrow> if is_ConnectionError e then ConnectionError else RuntimeError e))"

subsection \<open>The network and the disk\<close>

datatype probe_outcome = HeadRaises request_exception | HeadResponse headers

datatype stream_item = Chunk string | StreamRaises request_exception

datatype get_outcome =
    GetRaises request_exception
  | GetResponse int string headers "stream_item list"

text \<open>
  The temporary directory holds regular files only, and exists. \<open>open_raises\<close> makes
  \<open>open(local_path, 'wb')\<close> fail; \<open>disk_room\<close> is the number of bytes the disk still
  takes, a write beyond it fails (disk full).
\<close>

type_synonym filesystem = "string \<rightharpoonup> string"

record environment =
  temp_dir :: string
  head_outcome :: probe_outcome
  get_outcome :: get_outcome
  open_raises :: bool
  disk_room :: nat

text \<open>\<open>posixpath.join\<close> of two components.\<close>

definition path_join :: "string \<Rightarrow> string \<Rightarrow> string" where
  "path_join a b =
     (if b \<noteq> [] \<and> hd b = CHR ''/'' then b
      else if a = [] \<or> last a = CHR ''/'' then a @ b
      else a @ ''/'' @ b)"

text \<open>\<open>if os.path.exists(local_path): os.remove(local_path)\<close>\<close>

definition remove_if_exists :: "filesystem \<Rightarrow> string \<Rightarrow> filesystem" where
  "remove_if_exists fs local_path =
     (if fs local_path \<noteq> None then fs(local_path := None) else fs)"

subsection \<open>The probe\<close>

text \<open>\<open>int(headers.get('Content-Length', 0))\<close>\<close>

definition content_length :: "headers \<Rightarrow> error + int" where
  "content_length hdrs =
     (case hdrs ''Content-Length'' of
        None \<Rightarrow> Inr 0
      | Some v \<Rightarrow>
          (case py_int_of_string v of
             None \<Rightarrow> Inl (ValueError_int v)
           | Some n \<Rightarrow> Inr n))"

text \<open>
  The first \<open>try\<close> block: the filename and the total size, or the exception that is not
  a \<open>RequestException\<close> and so leaves \<open>download_file\<close>.
\<close>

definition probe :: "probe_outcome \<Rightarrow> string \<Rightarrow> error + (string \<times> int)" where
  "probe outcome url =
     (case outcome of
        HeadRaises e \<Rightarrow> Inr (extract_filename_from_url url, 0)
      | HeadResponse hdrs \<Rightarrow>
          (let filename =
                 (case extract_filename_from_headers hdrs of
                    None \<Rightarrow> extract_filename_from_url url
                  | Some f \<Rightarrow> if f = [] then extract_filename_from_url url else f)
           in case content_length hdrs of
                Inl err \<Rightarrow> Inl err
              | Inr total_size \<Rightarrow> Inr (filename, total_size)))"

subsection \<open>The streaming loop\<close>

record transfer =
  files :: filesystem
  room :: nat
  received :: int
  last_percent :: int
  reported :: "int list"

datatype loop_exit = Completed | RaisedRequest request_exception | RaisedOSError

text \<open>
  \<open>for chunk in response.iter_content(...)\<close>: \<open>reported\<close> collects the arguments of the
  calls of \<open>progress_callback\<close>, in order.
\<close>

fun iter_content ::
  "bool \<Rightarrow> int \<Rightarrow> string \<Rightarrow> stream_item list \<Rightarrow> transfer \<Rightarrow> loop_exit \<times> transfer" where
  "iter_content has_callback total_size local_path [] s = (Completed, s)"
| "iter_content has_callback total_size local_path (StreamRaises e # rest) s =
     (RaisedRequest e, s)"
| "iter_content has_callback total_size local_path (Chunk chunk # rest) s =
     (if chunk = [] then iter_content has_callback total_size local_path rest s
      else if length chunk > room s then (RaisedOSError, s)
      else
        let written = (case files s local_path of None \<Rightarrow> [] | Some d \<Rightarrow> d) @ chunk;
            s1 = s\<lparr>files := (files s)(local_path \<mapsto> written),
                   room := room s - length chunk,
                   received := received s + int (length chunk)\<rparr>;
            current_percent = py_percent (received s1) total_size;
            s2 = (if has_callback \<and> total_size > 0 \<and> current_percent > last_percent s1
                  then s1\<lparr>reported := reported s1 @ [current_percent],
                          last_percent := current_percent\<rparr>
                  else s1)
        in iter_content has_callback total_size local_path rest s2)"

text \<open>
  The second \<open>try\<close> block with its handlers: the result or the exception, the files
  afterwards, and the percentages passed to the callback. The calls of the logger are
  left out, and the callback is taken not to raise.
\<close>

definition fetch ::
  "environment \<Rightarrow> filesystem \<Rightarrow> string \<Rightarrow> int \<Rightarrow> bool \<Rightarrow> int
     \<Rightarrow> (error + string) \<times> filesystem \<times> int list" where
  "fetch env fs local_path total_size0 has_callback timeout =
     (case get_outcome env of
        GetRaises e \<Rightarrow>
          (Inl (on_request_exception timeout e), remove_if_exists fs local_path, [])
      | GetResponse status_code reason hdrs body \<Rightarrow>
          if 400 \<le> status_code \<and> status_code < 600
          then (Inl (on_request_exception timeout (HTTPError status_code reason)),
                remove_if_exists fs local_path, [])
          else
            (case (if total_size0 = 0 then content_length hdrs else Inr total_size0) of
               Inl err \<Rightarrow> (Inl err, fs, [])
             | Inr total_size \<Rightarrow>
                 if open_raises env
                 then (Inl OSError_write, remove_if_exists fs local_path, [])
                 else
                   (case iter_content has_callback total_size local_path body
                           \<lparr>files = fs(local_path \<mapsto> []), room = disk_room env,
                            received = 0, last_percent = - 1, reported = []\<rparr> of
                      (RaisedRequest e, s) \<Rightarrow>
                        (Inl (on_request_exception timeout e),
                         remove_if_exists (files s) local_path, reported s)
                    | (RaisedOSError, s) \<Rightarrow>
                        (Inl OSError_write, remove_if_exists (files s) local_path, reported s)
                    | (Completed, s) \<Rightarrow>
                        (Inr local_path, files s,
                         if has_callback \<and> total_size > 0 \<and> last_percent s < 100
                         then reported s @ [100] else reported s))))"

definition download_file ::
  "environment \<Rightarrow> filesystem \<Rightarrow> string \<Rightarrow> bool \<Rightarrow> int
     \<Rightarrow> (error + string) \<times> filesystem \<times> int list" where
  "download_file env fs url has_callback timeout =
     (case probe (head_outcome env) url of
        Inl err \<Rightarrow> (Inl err, fs, [])
      | Inr (filename, total_size) \<Rightarrow>
          fetch env fs (path_join (temp_dir env) filename) total_size has_callback timeout)"

text \<open>
  The values \<open>received\<close> takes in the loop, one after each chunk that is not empty,
  starting from \<open>r\<close>, up to the end of the body or the point where the stream raises.
\<close>

fun received_counts :: "int \<Rightarrow> stream_item list \<Rightarrow> int list" where
  "received_counts r [] = []"
| "received_counts r (StreamRaises e # rest) = []"
| "received_counts r (Chunk chunk # rest) =
     (if chunk = [] then received_counts r rest
      else (r + int (length chunk)) # received_counts (r + int (length chunk)) rest)"

text \<open>
  The invariant of the loop when the total size is known: what was reported rises
  strictly and stays within 0 and 100, \<open>last_percent\<close> is the last value reported, and
  it is not behind the percentage of the bytes received.
\<close>

definition progress_inv :: "int \<Rightarrow> transfer \<Rightarrow> bool" where
  "progress_inv total_size s \<longleftrightarrow>
     sorted_wrt (<) (reported s)
     \<and> list_all (\<lambda>p. 0 \<le> p \<and> p \<le> 100) (reported s)
     \<and> last_percent s = (if reported s = [] then - 1 else last (reported s))
     \<and> 0 \<le> received s
     \<and> (0 < received s \<longrightarrow> py_percent (received s) total_size \<le> last_percent s)"

text \<open>The exceptions raised by the handlers of \<open>download_file\<close>.\<close>

definition classified :: "error \<Rightarrow> bool" where
  "classified e = (case e of ValueError_int _ \<Rightarrow> False | _ \<Rightarrow> True)"

section \<open>Rate limiter (\<open>bot/validators.py\<close>)\<close>

text \<open>
  \<open>time.time()\<close> is read once per call; its value is the argument \<open>current_time\<close>, a
  rational number of seconds. \<open>user_last_request\<close> is the module's dictionary, passed in
  and returned. \<open>int(x)\<close> on a float truncates towards zero.
\<close>

definition REQUEST_COOLDOWN :: rat where
  "REQUEST_COOLDOWN = 10"

definition py_int_trunc :: "rat \<Rightarrow> int" where
  "py_int_trunc x = (if x \<ge> 0 then \<lfloor>x\<rfloor> else \<lceil>x\<rceil>)"

definition check_rate_limit ::
  "(int \<rightharpoonup> rat) \<Rightarrow> rat \<Rightarrow> int \<Rightarrow> (bool \<times> int) \<times> (int \<rightharpoonup> rat)" where
  "check_rate_limit user_last_request current_time user_id =
     (let last_time = (case user_last_request user_id of None \<Rightarrow> 0 | Some t \<Rightarrow> t);
          time_passed = current_time - last_time
      in if time_passed < REQUEST_COOLDOWN
         then ((False, py_int_trunc (REQUEST_COOLDOWN - time_passed)), user_last_request)
         else ((True, 0), user_last_request(user_id \<mapsto> current_time)))"

section \<open>Progress bridge (\<open>bot/handlers.py\<close>)\<close>

text \<open>
  The closure \<open>progress_callback\<close> of \<open>handle_format_selection\<close>, for the job whose key
  is \<open>msg_key\<close>. \<open>last_update_time\<close> is the module's dictionary. The call reads the
  clock once (\<open>current_time\<close>) and asks the event loop whether it runs (\<open>loop_running\<close>);
  it hands \<open>edit_status\<close> to the loop, here the percentage it will show, or nothing.
\<close>

definition MIN_EDIT_DELAY :: rat where
  "MIN_EDIT_DELAY = 2"

definition progress_callback ::
  "string \<Rightarrow> (string \<rightharpoonup> rat) \<Rightarrow> rat \<Rightarrow> bool \<Rightarrow> int \<Rightarrow> int option \<times> (string \<rightharpoonup> rat)" where
  "progress_callback msg_key last_update_time current_time loop_running percent =
     (if current_time - (case last_update_time msg_key of None \<Rightarrow> 0 | Some t \<Rightarrow> t)
           < MIN_EDIT_DELAY \<and> percent < 100
      then (None, last_update_time)
      else (if loop_running then Some percent else None,
            last_update_time(msg_key \<mapsto> current_time)))"

text \<open>
  A job's events, each with the clock reading and the loop's state at its call, through
  the callback one after the other: the events handed to the loop.
\<close>

fun bridge :: "string \<Rightarrow> (string \<rightharpoonup> rat) \<Rightarrow> (rat \<times> bool \<times> int) list \<Rightarrow> (rat \<times> int) list" where
  "bridge msg_key last_update_time [] = []"
| "bridge msg_key last_update_time ((t, running, percent) # events) =
     (case progress_callback msg_key last_update_time t running percent of
        (None, m) \<Rightarrow> bridge msg_key m events
      | (Some p, m) \<Rightarrow> (t, p) # bridge msg_key m events)"

text \<open>
  The throttling rule in the words of the specification: forward an event when at least
  the minimum interval has passed since the last forwarded one of the job (none yet:
  forward), or when the percent is 100; drop it otherwise.
\<close>

fun spec_throttle :: "rat option \<Rightarrow> (rat \<times> int) list \<Rightarrow> (rat \<times> int) list" where
  "spec_throttle last_forwarded [] = []"
| "spec_throttle last_forwarded ((t, percent) # events) =
     (if (case last_forwarded of None \<Rightarrow> True | Some l \<Rightarrow> t - l \<ge> 2) \<or> percent = 100
      then (t, percent) # spec_throttle (Some t) events
      else spec_throttle last_forwarded events)"

text \<open>
  The rule the callback follows: as above, but an event also passes when its percent is
  100 or more (the source tests \<open>percent < 100\<close> before it drops an event).
\<close>

fun throttle_rule :: "rat option \<Rightarrow> (rat \<times> int) list \<Rightarrow> (rat \<times> int) list" where
  "throttle_rule last_forwarded [] = []"
| "throttle_rule last_forwarded ((t, percent) # events) =
     (if (case last_forwarded of None \<Rightarrow> True | Some l \<Rightarrow> t - l \<ge> 2) \<or> percent \<ge> 100
      then (t, percent) # throttle_rule (Some t) events
      else throttle_rule last_forwarded events)"

section \<open>Properties of the rounding\<close>

lemma bitlen_rat_bounds:
  assumes "0 < p"
  shows "(2::rat) powi (bitlen p - 1) \<le> of_int p" and "of_int p < (2::rat) powi (bitlen p)"
proof -
  from bitlen_bounds [OF assms]
  have lo: "2 ^ nat (bitlen p - 1) \<le> p" and hi: "p < 2 ^ nat (bitlen p)" by simp_all
  have b1: "1 \<le> bitlen p" using assms bitlen_eq_zero_iff [of p] bitlen_nonneg [of p] by linarith
  have "(of_int (2 ^ nat (bitlen p - 1)) :: rat) \<le> of_int p" using lo by (simp only: of_int_le_iff)
  then show "(2::rat) powi (bitlen p - 1) \<le> of_int p"
    using b1 by (simp add: power_int_def)
  have "(of_int p :: rat) < of_int (2 ^ nat (bitlen p))" using hi by (simp only: of_int_less_iff)
  then show "of_int p < (2::rat) powi (bitlen p)"
    using b1 by (simp add: power_int_def)
qed

lemma binade_bounds:
  assumes "0 < x"
  shows "2 powi (binade x) \<le> x" and "x < 2 powi (binade x + 1)"
proof -
  obtain p q where pq: "quotient_of x = (p, q)" by (cases "quotient_of x")
  have q: "0 < q" using pq by (rule quotient_of_denom_pos)
  have x: "x = of_int p / of_int q" using pq by (rule quotient_of_div)
  have p: "0 < p" using assms q x by (simp add: zero_less_divide_iff)
  define e0 where "e0 = bitlen p - bitlen q"
  have up: "x < 2 powi (e0 + 1)"
  proof -
    have "of_int p < (2::rat) powi (bitlen p)" using p by (rule bitlen_rat_bounds)
    moreover have "(2::rat) powi (bitlen q - 1) \<le> of_int q" using q by (rule bitlen_rat_bounds)
    ultimately have "of_int p * (2::rat) powi (bitlen q - 1) < 2 powi (bitlen p) * of_int q"
      using p q by (intro mult_less_le_imp_less) simp_all
    then have "x < 2 powi (bitlen p) / 2 powi (bitlen q - 1)"
      using q by (simp add: x field_simps)
    also have "\<dots> = 2 powi (e0 + 1)"
      by (simp add: e0_def power_int_diff power_int_add)
    finally show ?thesis .
  qed
  have low: "2 powi (e0 - 1) \<le> x"
  proof -
    have "(2::rat) powi (bitlen p - 1) \<le> of_int p" using p by (rule bitlen_rat_bounds)
    moreover have "of_int q < (2::rat) powi (bitlen q)" using q by (rule bitlen_rat_bounds)
    ultimately have "(2::rat) powi (bitlen p - 1) * of_int q \<le> of_int p * 2 powi (bitlen q)"
      using p q by (intro mult_mono) simp_all
    then have "2 powi (bitlen p - 1) / 2 powi (bitlen q) \<le> x"
      using q by (simp add: x field_simps)
    moreover have "2 powi (bitlen p - 1) / 2 powi (bitlen q) = (2::rat) powi (e0 - 1)"
      by (simp add: e0_def power_int_diff)
    ultimately show ?thesis by simp
  qed
  have b: "binade x = (if 2 powi e0 \<le> x then e0 else e0 - 1)"
    by (simp add: binade_def pq e0_def Let_def)
  show "2 powi (binade x) \<le> x" using low by (simp add: b)
  show "x < 2 powi (binade x + 1)" using up by (auto simp add: b not_le)
qed

lemma binade_unique:
  assumes "0 < x" "2 powi e \<le> x" "x < 2 powi (e + 1)"
  shows "binade x = e"
proof -
  from binade_bounds [OF assms(1)]
  have lo: "2 powi (binade x) \<le> x" and hi: "x < 2 powi (binade x + 1)" by simp_all
  have "(2::rat) powi e < 2 powi (binade x + 1)" using assms(2) hi by simp
  then have 1: "e < binade x + 1"
    using power_int_increasing [of "binade x + 1" e "2::rat"] by (cases "e < binade x + 1") auto
  have "(2::rat) powi (binade x) < 2 powi (e + 1)" using lo assms(3) by simp
  then have 2: "binade x < e + 1"
    using power_int_increasing [of "e + 1" "binade x" "2::rat"] by (cases "binade x < e + 1") auto
  from 1 2 show ?thesis by simp
qed

lemma rhe_err: "\<bar>of_int (round_half_even x) - x\<bar> \<le> 1 / 2"
  unfolding round_half_even_def Let_def by (auto simp: abs_if) linarith+

lemma rhe_of_int: "round_half_even (of_int n) = n"
  by (simp add: round_half_even_def)

lemma rhe_mono:
  assumes "x \<le> y"
  shows "round_half_even x \<le> round_half_even y"
proof (cases "\<lfloor>x\<rfloor> = \<lfloor>y\<rfloor>")
  case True
  have "x - of_int \<lfloor>x\<rfloor> \<le> y - of_int \<lfloor>x\<rfloor>" using assms by simp
  then show ?thesis
    unfolding round_half_even_def Let_def True [symmetric] by auto
next
  case False
  have "\<lfloor>x\<rfloor> \<le> \<lfloor>y\<rfloor>" using assms by (rule floor_mono)
  with False have "\<lfloor>x\<rfloor> + 1 \<le> \<lfloor>y\<rfloor>" by simp
  moreover have "round_half_even x \<le> \<lfloor>x\<rfloor> + 1"
    by (simp add: round_half_even_def Let_def)
  moreover have "\<lfloor>y\<rfloor> \<le> round_half_even y"
    by (simp add: round_half_even_def Let_def)
  ultimately show ?thesis by linarith
qed

lemma fl64_pos_eq:
  assumes "0 < x"
  shows "fl64 x = of_int (round_half_even (x / 2 powi (binade x - 52))) * 2 powi (binade x - 52)"
  using assms by (simp add: fl64_def Let_def)

lemma fl64_binade_range:
  assumes "0 < x"
  shows "2 powi (binade x) \<le> fl64 x" and "fl64 x \<le> 2 powi (binade x + 1)"
proof -
  define u :: rat where "u = 2 powi (binade x - 52)"
  have u: "0 < u" by (simp add: u_def)
  have b1: "2 powi (binade x) = 2 ^ 52 * u"
    by (simp add: u_def power_int_diff)
  have b2: "2 powi (binade x + 1) = 2 ^ 53 * u"
    by (simp add: u_def power_int_diff power_int_add)
  from binade_bounds [OF assms] have "2 ^ 52 * u \<le> x" "x < 2 ^ 53 * u"
    by (simp_all add: b1 b2)
  then have "of_int (2 ^ 52) \<le> x / u" "x / u \<le> of_int (2 ^ 53)"
    using u by (simp_all add: field_simps)
  then have "round_half_even (of_int (2 ^ 52)) \<le> round_half_even (x / u)"
    and "round_half_even (x / u) \<le> round_half_even (of_int (2 ^ 53))"
    by (simp_all only: rhe_mono)
  then have "(2::int) ^ 52 \<le> round_half_even (x / u)" "round_half_even (x / u) \<le> (2::int) ^ 53"
    by (simp_all only: rhe_of_int)
  then have "(of_int (2 ^ 52) :: rat) \<le> of_int (round_half_even (x / u))"
    and "(of_int (round_half_even (x / u)) :: rat) \<le> of_int (2 ^ 53)"
    by (simp_all only: of_int_le_iff)
  then have "2 ^ 52 * u \<le> of_int (round_half_even (x / u)) * u"
    and "of_int (round_half_even (x / u)) * u \<le> 2 ^ 53 * u"
    using u by simp_all
  then show "2 powi (binade x) \<le> fl64 x" and "fl64 x \<le> 2 powi (binade x + 1)"
    using assms by (simp_all add: fl64_pos_eq b1 b2 u_def)
qed

lemma fl64_mono_pos:
  assumes "0 < x" "x \<le> y"
  shows "fl64 x \<le> fl64 y"
proof -
  have y: "0 < y" using assms by simp
  have le: "binade x \<le> binade y"
  proof (rule ccontr)
    assume "\<not> binade x \<le> binade y"
    then have "binade y + 1 \<le> binade x" by simp
    then have "(2::rat) powi (binade y + 1) \<le> 2 powi (binade x)"
      by (intro power_int_increasing) simp_all
    with binade_bounds [OF assms(1)] binade_bounds [OF y] assms(2) show False by simp
  qed
  show ?thesis
  proof (cases "binade x = binade y")
    case True
    define u :: rat where "u = 2 powi (binade x - 52)"
    have u: "0 < u" by (simp add: u_def)
    have "x / u \<le> y / u" using assms(2) u by (simp add: divide_right_mono)
    then have "round_half_even (x / u) \<le> round_half_even (y / u)" by (rule rhe_mono)
    then have "(of_int (round_half_even (x / u)) :: rat) \<le> of_int (round_half_even (y / u))"
      by (simp only: of_int_le_iff)
    then have "of_int (round_half_even (x / u)) * u \<le> of_int (round_half_even (y / u)) * u"
      using u by simp
    then show ?thesis
      using assms(1) y by (simp add: fl64_pos_eq True [symmetric] u_def)
  next
    case False
    with le have "binade x + 1 \<le> binade y" by simp
    then have "(2::rat) powi (binade x + 1) \<le> 2 powi (binade y)"
      by (intro power_int_increasing) simp_all
    with fl64_binade_range(2) [OF assms(1)] fl64_binade_range(1) [OF y]
    show ?thesis by simp
  qed
qed

lemma fl64_nonneg: "0 \<le> x \<Longrightarrow> 0 \<le> fl64 x"
proof (cases "x = 0")
  case True then show ?thesis by (simp add: fl64_def)
next
  case False
  assume "0 \<le> x"
  with False have x: "0 < x" by simp
  have "(0::rat) \<le> 2 powi (binade x)" by simp
  with fl64_binade_range(1) [OF x] show ?thesis by linarith
qed

lemma fl64_mono:
  assumes "0 \<le> x" "x \<le> y"
  shows "fl64 x \<le> fl64 y"
proof (cases "x = 0")
  case True
  then show ?thesis using assms fl64_nonneg [of y] by (simp add: fl64_def)
next
  case False
  with assms show ?thesis by (intro fl64_mono_pos) simp_all
qed

lemma fl64_err:
  assumes "0 < x"
  shows "\<bar>fl64 x - x\<bar> \<le> x / 2 ^ 53"
proof -
  define u :: rat where "u = 2 powi (binade x - 52)"
  have u: "0 < u" by (simp add: u_def)
  have b1: "2 powi (binade x) = 2 ^ 52 * u"
    by (simp add: u_def power_int_diff)
  have lo: "2 ^ 52 * u \<le> x" using binade_bounds(1) [OF assms] by (simp add: b1)
  define r :: rat where "r = of_int (round_half_even (x / u))"
  have "\<bar>r - x / u\<bar> \<le> 1 / 2" unfolding r_def by (rule rhe_err)
  then have "\<bar>r - x / u\<bar> * u \<le> 1 / 2 * u"
    using u by (intro mult_right_mono) simp_all
  moreover have "\<bar>r - x / u\<bar> * u = \<bar>(r - x / u) * u\<bar>"
    using u by (simp add: abs_mult)
  moreover have "(r - x / u) * u = r * u - x"
    using u by (simp add: field_simps)
  ultimately have "\<bar>r * u - x\<bar> \<le> u / 2" by simp
  moreover have "fl64 x = r * u"
    using assms by (simp add: fl64_pos_eq u_def r_def)
  ultimately have "\<bar>fl64 x - x\<bar> \<le> u / 2" by simp
  also have "u / 2 \<le> x / 2 ^ 53" using lo by simp
  finally show ?thesis .
qed

lemma fl64_0: "fl64 0 = 0"
  by (simp add: fl64_def)

lemma fl64_1: "fl64 1 = 1"
  by code_simp

lemma fl64_100: "fl64 100 = 100"
  by code_simp

section \<open>Rate limiter: cooldown and frame\<close>

lemma check_rate_limit_rejects:
  assumes "m u = Some l" "now - l < 10"
  shows "check_rate_limit m now u = ((False, py_int_trunc (10 - (now - l))), m)"
  using assms by (simp add: check_rate_limit_def REQUEST_COOLDOWN_def)

lemma check_rate_limit_admits:
  assumes "m u = Some l" "10 \<le> now - l"
  shows "check_rate_limit m now u = ((True, 0), m(u \<mapsto> now))"
  using assms by (simp add: check_rate_limit_def REQUEST_COOLDOWN_def)

lemma wait_positive_iff:
  assumes "0 \<le> d" "d < 10"
  shows "0 < py_int_trunc (10 - d) \<longleftrightarrow> d \<le> 9"
proof -
  have "0 \<le> 10 - d" using assms by simp
  then have "py_int_trunc (10 - d) = \<lfloor>10 - d\<rfloor>" by (simp add: py_int_trunc_def)
  moreover have "0 < \<lfloor>10 - d\<rfloor> \<longleftrightarrow> 1 \<le> 10 - d" by (simp add: zero_less_floor)
  ultimately show ?thesis by auto
qed

text \<open>
  C5. A second call within the cooldown is rejected, but its waiting time is the
  remaining time cut down to whole seconds: user 7 is admitted at time 1000, asks again
  at time 1009.5, and is rejected with a wait of 0, not of more than 0.
\<close>

theorem check_rate_limit_wait_zero:
  "(let (first, m1) = check_rate_limit Map.empty 1000 7;
        (second, m2) = check_rate_limit m1 (2019 / 2) 7
    in (first, second, m2 7)) = ((True, 0), (False, 0), Some 1000)"
  by code_simp

text \<open>
  C10. A call that rejects returns the dictionary it was given, and no call changes the
  entry of an identity other than the caller's.
\<close>

theorem check_rate_limit_frame:
  assumes "check_rate_limit m now u = ((allowed, wait), m')"
  shows "(\<not> allowed \<longrightarrow> m' = m) \<and> (\<forall>v. v \<noteq> u \<longrightarrow> m' v = m v)"
  using assms by (auto simp add: check_rate_limit_def Let_def split: if_splits)

theorem check_rate_limit_frame_witness:
  "check_rate_limit [7 \<mapsto> 1000, 8 \<mapsto> 990] 1005 7 = ((False, 5), [7 \<mapsto> 1000, 8 \<mapsto> 990])
   \<and> snd (check_rate_limit [7 \<mapsto> 1000, 8 \<mapsto> 990] 1005 8) 7 = Some 1000"
proof -
  have r1: "check_rate_limit [7 \<mapsto> 1000, 8 \<mapsto> 990] 1005 7
      = ((False, 5), snd (check_rate_limit [7 \<mapsto> 1000, 8 \<mapsto> 990] 1005 7))"
    by (simp add: check_rate_limit_def REQUEST_COOLDOWN_def py_int_trunc_def)
  have r2: "check_rate_limit [7 \<mapsto> 1000, 8 \<mapsto> 990] 1005 8
      = ((True, 0), snd (check_rate_limit [7 \<mapsto> 1000, 8 \<mapsto> 990] 1005 8))"
    by (simp add: check_rate_limit_def REQUEST_COOLDOWN_def py_int_trunc_def)
  from check_rate_limit_frame [OF r1] check_rate_limit_frame [OF r2] r1
  show ?thesis by simp
qed

section \<open>Filename resolver: the sanitizer and the URL\<close>

lemma split_char_nonempty: "split_char c s \<noteq> []"
  by (induction s) (auto split: list.splits)

lemma splitext_append: "splitext p = (name, ext) \<Longrightarrow> name @ ext = p"
  by (auto simp add: splitext_def Let_def split: if_splits)

lemma default_name_legal: "\<not> illegal_char c" if "c \<in> set default_name"
  using that by (auto simp add: default_name_def illegal_char_def dquote_def backslash_def)

lemma underscore_legal: "\<not> illegal_char (CHR ''_'')"
  by (simp add: illegal_char_def dquote_def backslash_def)

lemma sanitize_filename_nonempty: "sanitize_filename s \<noteq> []"
proof -
  define f2 where "f2 = strip_chars ''. '' (map (\<lambda>c. if illegal_char c then CHR ''_'' else c) s)"
  define f3 where "f3 = (if f2 = [] then default_name else f2)"
  have f3: "f3 \<noteq> []" by (simp add: f3_def default_name_def)
  obtain name ext where sp: "splitext f3 = (name, ext)" by (cases "splitext f3")
  have "take 250 name @ ext \<noteq> []"
  proof
    assume "take 250 name @ ext = []"
    then have "name = []" "ext = []" by auto
    with splitext_append [OF sp] f3 show False by simp
  qed
  moreover have "sanitize_filename s
      = (if length f3 > 255 then (case splitext f3 of (name, ext) \<Rightarrow> take 250 name @ ext) else f3)"
    unfolding sanitize_filename_def f3_def f2_def Let_def ..
  ultimately show ?thesis
    using f3 sp by simp
qed

lemma strip_where_idem: "strip_where P (strip_where P s) = strip_where P s"
proof -
  define z where "z = dropWhile P s"
  define w where "w = dropWhile P (rev z)"
  have y: "strip_where P s = rev w" by (simp add: strip_where_def z_def w_def)
  have ww: "dropWhile P w = w" by (simp add: w_def)
  have "dropWhile P (rev w) = rev w"
  proof (cases "w = []")
    case True
    then show ?thesis by simp
  next
    case False
    have zne: "z \<noteq> []" using False by (auto simp add: w_def)
    have "rev z = takeWhile P (rev z) @ w" by (simp add: w_def)
    then have "last (rev z) = last w" using False by (metis last_appendR)
    then have "last w = hd z" using zne by (simp add: last_rev)
    moreover have "\<not> P (hd z)" using zne unfolding z_def by (rule hd_dropWhile)
    ultimately have "\<not> P (hd (rev w))" using False by (simp add: hd_rev)
    then show ?thesis using False by (cases "rev w") auto
  qed
  then have "strip_where P (rev w) = rev w"
    by (simp add: strip_where_def ww)
  then show ?thesis by (simp only: y)
qed

lemma strip_where_subset: "set (strip_where P s) \<subseteq> set s"
proof -
  have "set (dropWhile P (rev (dropWhile P s))) \<subseteq> set (rev (dropWhile P s))"
    by (rule set_dropWhileD [THEN subsetI])
  also have "\<dots> \<subseteq> set s" by (auto dest: set_dropWhileD)
  finally show ?thesis by (simp add: strip_where_def)
qed

text \<open>Within the length limit the sanitizer is idempotent and keeps the limit.\<close>

lemma sanitize_filename_within_limit:
  assumes "length (strip_chars ''. '' (map (\<lambda>c. if illegal_char c then CHR ''_'' else c) s)) \<le> 255"
  shows "sanitize_filename (sanitize_filename s) = sanitize_filename s"
    and "length (sanitize_filename s) \<le> 255"
proof -
  let ?clean = "map (\<lambda>c. if illegal_char c then CHR ''_'' else c)"
  define f2 where "f2 = strip_chars ''. '' (?clean s)"
  define f3 where "f3 = (if f2 = [] then default_name else f2)"
  have len: "length f3 \<le> 255" using assms by (simp add: f3_def f2_def default_name_def)
  have "sanitize_filename s
      = (if length f3 > 255 then (case splitext f3 of (name, ext) \<Rightarrow> take 250 name @ ext) else f3)"
    unfolding sanitize_filename_def f3_def f2_def Let_def ..
  then have out: "sanitize_filename s = f3"
    using len by simp
  have legal: "\<not> illegal_char c" if "c \<in> set f3" for c
  proof (cases "f2 = []")
    case True
    with that show ?thesis by (simp add: f3_def default_name_legal)
  next
    case False
    with that have "c \<in> set (?clean s)"
      using strip_where_subset [of "\<lambda>c. c \<in> set ''. ''" "?clean s"]
      by (auto simp add: f3_def f2_def strip_chars_def)
    then show ?thesis by (auto simp add: underscore_legal)
  qed
  then have cl: "?clean f3 = f3" by (simp add: map_idI)
  have st: "strip_chars ''. '' f3 = f3"
  proof (cases "f2 = []")
    case True
    then have "f3 = default_name" by (simp add: f3_def)
    then show ?thesis by (simp add: strip_chars_def strip_where_def default_name_def)
  next
    case False
    then show ?thesis by (simp add: f3_def f2_def strip_chars_def strip_where_idem)
  qed
  have ne: "f3 \<noteq> []" by (simp add: f3_def default_name_def)
  show "sanitize_filename (sanitize_filename s) = sanitize_filename s"
    unfolding out using cl st ne len by (simp add: sanitize_filename_def Let_def)
  show "length (sanitize_filename s) \<le> 255" using out len by simp
qed

lemma last_split_char:
  "last (split_char c s) = rev (takeWhile (\<lambda>x. x \<noteq> c) (rev s))"
proof (induction s)
  case Nil
  then show ?case by simp
next
  case (Cons x xs)
  show ?case
  proof (cases "c \<in> set xs")
    case True
    then have "takeWhile (\<lambda>x. x \<noteq> c) (rev xs @ [x]) = takeWhile (\<lambda>x. x \<noteq> c) (rev xs)"
      by (simp add: takeWhile_append1)
    moreover have "length (split_char c xs) \<ge> 2" using True
      by (induction xs) (auto simp add: split_char_nonempty split: list.splits)
    ultimately show ?thesis using Cons
      by (cases "split_char c xs") (auto split: list.splits)
  next
    case False
    then have t: "takeWhile (\<lambda>x. x \<noteq> c) (rev xs) = rev xs"
      by (auto intro: takeWhile_eq_all_conv [THEN iffD2])
    have sp: "split_char c xs = [xs]" using False
      by (induction xs) (auto simp add: split_char_nonempty split: list.splits)
    have "takeWhile (\<lambda>x. x \<noteq> c) (rev xs @ [x]) = rev xs @ takeWhile (\<lambda>x. x \<noteq> c) [x]"
      using False by (intro takeWhile_append2) auto
    then show ?thesis using sp by simp
  qed
qed

lemma hd_split_char: "hd (split_char c s) = takeWhile (\<lambda>x. x \<noteq> c) s"
  by (induction s) (auto simp add: split_char_nonempty split: list.splits)

lemma extract_filename_from_url_eq:
  "extract_filename_from_url url =
     (let segment = takeWhile (\<lambda>c. c \<noteq> CHR ''?'')
                      (rev (takeWhile (\<lambda>c. c \<noteq> CHR ''/'') (rev url)))
      in sanitize_filename (if segment = [] then default_name else segment))"
  by (simp add: extract_filename_from_url_def Let_def split_char_nonempty last_split_char
      hd_split_char)

lemma extract_filename_from_url_example:
  "extract_filename_from_url ''https://example.org/files/report.pdf?token=xyz'' = ''report.pdf''"
  by code_simp

text \<open>
  C9. The URL is cut at its slashes before the query string is removed, so a slash
  inside the query string moves the "last segment" into the query:
  \<open>https://example.org/files/report.pdf?next=/home\<close> resolves to \<open>home\<close>, while the last
  path segment of the URL without its query string is \<open>report.pdf\<close>.
\<close>

theorem extract_filename_from_url_query_slash:
  "extract_filename_from_url ''https://example.org/files/report.pdf?next=/home'' = ''home''
   \<and> spec_url_filename ''https://example.org/files/report.pdf?next=/home'' = ''report.pdf''"
  by code_simp

text \<open>
  C3. The length limit keeps 250 characters of the base name and all of the extension:
  300 letters followed by a ten-character extension come out 260 characters long. The
  cut can also end in a space, which a second pass strips: 249 letters, a space and ten
  more letters give 249 letters and a space, and sanitizing that gives the 249 letters.
\<close>

theorem sanitize_filename_long_names:
  "length (sanitize_filename (replicate 300 (CHR ''a'') @ ''.abcdefghi'')) = 260
   \<and> sanitize_filename (replicate 249 (CHR ''a'') @ '' '' @ replicate 10 (CHR ''b''))
       = replicate 249 (CHR ''a'') @ '' ''
   \<and> sanitize_filename (replicate 249 (CHR ''a'') @ '' '') = replicate 249 (CHR ''a'')"
  by code_simp

section \<open>The probe\<close>

lemma probe_head_raises: "probe (HeadRaises e) url = Inr (extract_filename_from_url url, 0)"
  by (simp add: probe_def)

lemma probe_no_length:
  assumes "hdrs ''Content-Length'' = None" "hdrs ''Content-Disposition'' = None"
  shows "probe (HeadResponse hdrs) url = Inr (extract_filename_from_url url, 0)"
  using assms by (simp add: probe_def content_length_def extract_filename_from_headers_def)

text \<open>
  C6. A response to the probe whose \<open>Content-Length\<close> is not a number makes
  \<open>download_file\<close> raise the \<open>ValueError\<close> of \<open>int\<close>: no request for the body is made,
  whatever the rest of the environment is.
\<close>

theorem download_file_probe_raises:
  "download_file (env\<lparr>head_outcome := HeadResponse [''Content-Length'' \<mapsto> ''abc'']\<rparr>)
      fs url has_callback timeout
   = (Inl (ValueError_int ''abc''), fs, [])"
proof -
  have "py_int_of_string ''abc'' = None" by code_simp
  then show ?thesis
    by (simp add: download_file_def probe_def content_length_def)
qed

section \<open>The percentage\<close>

lemma py_percent_zero: "py_percent 0 total_size = 0"
  by (simp add: py_percent_def fl64_0)

lemma py_percent_mono:
  assumes "0 < t" "0 \<le> r" "r \<le> r'"
  shows "py_percent r t \<le> py_percent r' t"
proof -
  have q: "(0::rat) \<le> of_int r / of_int t" using assms by simp
  have "(of_int r :: rat) / of_int t \<le> of_int r' / of_int t"
    using assms by (simp add: divide_right_mono)
  with q have 1: "fl64 (of_int r / of_int t) \<le> fl64 (of_int r' / of_int t)"
    by (rule fl64_mono)
  have 0: "0 \<le> fl64 (of_int r / of_int t)" using q by (rule fl64_nonneg)
  from 0 have "0 \<le> fl64 (of_int r / of_int t) * 100" by simp
  moreover from 1 have "fl64 (of_int r / of_int t) * 100 \<le> fl64 (of_int r' / of_int t) * 100"
    by simp
  ultimately have "fl64 (fl64 (of_int r / of_int t) * 100)
      \<le> fl64 (fl64 (of_int r' / of_int t) * 100)"
    by (rule fl64_mono)
  then show ?thesis unfolding py_percent_def by (rule floor_mono)
qed

lemma py_percent_full:
  assumes "0 < t"
  shows "py_percent t t = 100"
proof -
  have "(of_int t :: rat) / of_int t = 1" using assms by simp
  then show ?thesis by (simp add: py_percent_def fl64_1 fl64_100)
qed

lemma py_percent_nonneg:
  assumes "0 < t" "0 \<le> r"
  shows "0 \<le> py_percent r t"
  using py_percent_mono [OF assms(1) _ assms(2)] by (simp add: py_percent_zero)

lemma py_percent_le_100:
  assumes "0 < t" "0 \<le> r" "r \<le> t"
  shows "py_percent r t \<le> 100"
  using py_percent_mono [OF assms] py_percent_full [OF assms(1)] by simp

lemma floor_close:
  fixes a b :: rat
  assumes "\<bar>a - b\<bar> < 1"
  shows "\<bar>\<lfloor>a\<rfloor> - \<lfloor>b\<rfloor>\<bar> \<le> 1"
proof -
  have ab: "a \<le> b + 1" and ba: "b \<le> a + 1" using assms by (simp_all add: abs_less_iff)
  have "\<lfloor>a\<rfloor> \<le> \<lfloor>b + 1\<rfloor>" using ab by (rule floor_mono)
  moreover have "\<lfloor>b\<rfloor> \<le> \<lfloor>a + 1\<rfloor>" using ba by (rule floor_mono)
  ultimately show ?thesis by simp
qed

lemma py_percent_near:
  assumes "0 < t" "0 \<le> r" "r \<le> t"
  shows "\<bar>py_percent r t - r * 100 div t\<bar> \<le> 1"
proof (cases "r = 0")
  case True
  then show ?thesis by (simp add: py_percent_zero)
next
  case False
  define x :: rat where "x = of_int r / of_int t"
  have x: "0 < x" "x \<le> 1" using assms False by (simp_all add: x_def)
  define y where "y = fl64 x * 100"
  have fx1: "fl64 x \<le> 1" using fl64_mono [of x 1] x by (simp add: fl64_1)
  have fxpos: "0 < fl64 x"
  proof -
    have "(0::rat) < 2 powi (binade x)" by simp
    with fl64_binade_range(1) [OF x(1)] show ?thesis by linarith
  qed
  have y: "0 < y" "y \<le> 100" using fxpos fx1 by (simp_all add: y_def)
  have e1: "\<bar>fl64 x - x\<bar> \<le> 1 / 2 ^ 53"
  proof -
    have "\<bar>fl64 x - x\<bar> \<le> x / 2 ^ 53" using x(1) by (rule fl64_err)
    also have "\<dots> \<le> 1 / 2 ^ 53" using x(2) by (simp add: divide_right_mono)
    finally show ?thesis .
  qed
  have e2: "\<bar>fl64 y - y\<bar> \<le> 100 / 2 ^ 53"
  proof -
    have "\<bar>fl64 y - y\<bar> \<le> y / 2 ^ 53" using y(1) by (rule fl64_err)
    also have "\<dots> \<le> 100 / 2 ^ 53" using y(2) by (simp add: divide_right_mono)
    finally show ?thesis .
  qed
  have "\<bar>fl64 y - x * 100\<bar> \<le> \<bar>fl64 y - y\<bar> + \<bar>fl64 x - x\<bar> * 100"
    unfolding y_def by (simp add: abs_if split: if_splits)
  also have "\<dots> \<le> 100 / 2 ^ 53 + 1 / 2 ^ 53 * 100"
    using e1 e2 by (intro add_mono mult_right_mono) simp_all
  also have "\<dots> < 1" by simp
  finally have "\<bar>\<lfloor>fl64 y\<rfloor> - \<lfloor>x * 100\<rfloor>\<bar> \<le> 1" by (rule floor_close)
  moreover have "\<lfloor>x * 100\<rfloor> = r * 100 div t"
  proof -
    have "x * 100 = of_int (r * 100) / of_int t" by (simp add: x_def)
    then show ?thesis by (simp only: floor_divide_of_int_eq)
  qed
  moreover have "py_percent r t = \<lfloor>fl64 y\<rfloor>" by (simp add: py_percent_def y_def x_def)
  ultimately show ?thesis by simp
qed

lemma received_counts_greater: "n \<in> set (received_counts r body) \<Longrightarrow> r < n"
proof (induction r body rule: received_counts.induct)
  case (3 r chunk rest)
  then show ?case by (cases "chunk = []") (auto split: if_splits)
qed simp_all

lemma iter_content_reports:
  "set (reported (snd (iter_content has_callback total_size local_path body s)))
     \<subseteq> set (reported s) \<union> (\<lambda>n. py_percent n total_size) ` set (received_counts (received s) body)"
proof (induction body arbitrary: s)
  case Nil
  then show ?case by simp
next
  case (Cons item rest)
  show ?case
  proof (cases item)
    case (StreamRaises e)
    then show ?thesis by simp
  next
    case (Chunk chunk)
    show ?thesis
    proof (cases "chunk = [] \<or> length chunk > room s")
      case True
      with Chunk Cons.IH [of s] show ?thesis by auto
    next
      case False
      then have ne: "chunk \<noteq> []" and fits: "\<not> length chunk > room s" by simp_all
      let ?k = "int (length chunk)"
      let ?f = "(files s)(local_path \<mapsto>
                  (case files s local_path of None \<Rightarrow> [] | Some d \<Rightarrow> d) @ chunk)"
      let ?s1 = "s\<lparr>files := ?f, room := room s - length chunk, received := received s + ?k\<rparr>"
      let ?cur = "py_percent (received s + ?k) total_size"
      let ?s2 = "if has_callback \<and> total_size > 0 \<and> ?cur > last_percent s
                 then ?s1\<lparr>reported := reported s @ [?cur], last_percent := ?cur\<rparr> else ?s1"
      have step: "iter_content has_callback total_size local_path (item # rest) s
          = iter_content has_callback total_size local_path rest ?s2"
        using Chunk ne fits by (simp add: Let_def)
      have r2: "received ?s2 = received s + ?k" by simp
      have rep: "set (reported ?s2) \<subseteq> set (reported s) \<union> {?cur}"
        by auto
      have rc: "received_counts (received s) (item # rest)
          = (received s + ?k) # received_counts (received s + ?k) rest"
        using Chunk ne by simp
      from Cons.IH [of ?s2] rep show ?thesis
        unfolding step rc r2 by auto
    qed
  qed
qed

lemma fetch_reports:
  assumes "get_outcome env = GetResponse status_code reason hdrs body"
    and "(if total_size0 = 0 then content_length hdrs else Inr total_size0) = Inr total_size"
    and "p \<in> set (snd (snd (fetch env fs local_path total_size0 has_callback timeout)))"
  shows "p = 100 \<or> p \<in> (\<lambda>n. py_percent n total_size) ` set (received_counts 0 body)"
proof -
  let ?s0 = "\<lparr>files = fs(local_path \<mapsto> []), room = disk_room env,
      received = 0, last_percent = - 1, reported = []\<rparr>"
  let ?r = "iter_content has_callback total_size local_path body ?s0"
  have sub: "set (reported (snd ?r))
      \<subseteq> (\<lambda>n. py_percent n total_size) ` set (received_counts 0 body)"
    using iter_content_reports [of has_callback total_size local_path body ?s0] by simp
  have "set (snd (snd (fetch env fs local_path total_size0 has_callback timeout)))
      \<subseteq> {100} \<union> set (reported (snd ?r))"
    using assms(1,2)
    by (cases ?r) (auto simp add: fetch_def split: loop_exit.splits if_splits)
  with sub assms(3) show ?thesis by auto
qed

lemma py_percent_ge_100:
  assumes "0 < t" "t \<le> n"
  shows "100 \<le> py_percent n t"
  using py_percent_mono [of t t n] py_percent_full [of t] assms by simp

text \<open>
  C4 (as amended). In a call of \<open>download_file\<close> with a known positive total size, every
  percentage passed to the callback is either the closing 100 or the floor of the
  double-precision product \<open>received / total_size * 100\<close> for the bytes received after
  some chunk. While that count is at most the total, the percentage differs by at most 1
  from the integer floor division \<open>received * 100 div total_size\<close> and lies between 0
  and 100; once the count has reached the total, the percentage is at least 100.
\<close>

theorem download_file_percentage:
  assumes "probe (head_outcome env) url = Inr (filename, total0)"
    and "get_outcome env = GetResponse status_code reason hdrs body"
    and "(if total0 = 0 then content_length hdrs else Inr total0) = Inr total_size"
    and "0 < total_size"
    and "p \<in> set (snd (snd (download_file env fs url has_callback timeout)))"
  shows "p = 100
         \<or> (\<exists>n \<in> set (received_counts 0 body).
               p = py_percent n total_size
               \<and> (n \<le> total_size \<longrightarrow>
                    \<bar>p - n * 100 div total_size\<bar> \<le> 1 \<and> 0 \<le> p \<and> p \<le> 100)
               \<and> (total_size \<le> n \<longrightarrow> 100 \<le> p))"
proof -
  from assms(1,5)
  have "p \<in> set (snd (snd (fetch env fs (path_join (temp_dir env) filename) total0
                              has_callback timeout)))"
    by (simp add: download_file_def)
  from fetch_reports [OF assms(2,3) this]
  consider "p = 100" | n where "n \<in> set (received_counts 0 body)" "p = py_percent n total_size"
    by auto
  then show ?thesis
  proof cases
    case 1
    then show ?thesis by simp
  next
    case 2
    have pos: "0 \<le> n" using received_counts_greater [OF 2(1)] by simp
    have a: "\<bar>p - n * 100 div total_size\<bar> \<le> 1 \<and> 0 \<le> p \<and> p \<le> 100" if "n \<le> total_size"
      using py_percent_near [OF assms(4) pos that] py_percent_nonneg [OF assms(4) pos]
        py_percent_le_100 [OF assms(4) pos that] 2(2)
      by simp
    have b: "100 \<le> p" if "total_size \<le> n"
      using py_percent_ge_100 [OF assms(4) that] 2(2) by simp
    from 2 a b show ?thesis by blast
  qed
qed

theorem download_file_percentage_witness:
  "57 \<in> set (snd (snd (download_file
      \<lparr>temp_dir = ''/tmp'', head_outcome = HeadResponse [''Content-Length'' \<mapsto> ''50''],
       get_outcome = GetResponse 200 ''OK'' Map.empty [Chunk ''0123456789012345678901234567x'',
                       Chunk ''890123456789012345678''],
       open_raises = False, disk_room = 1000\<rparr>
      Map.empty ''https://example.org/files/report.pdf'' True 1800)))
   \<and> (\<exists>n \<in> set (received_counts 0 [Chunk ''0123456789012345678901234567x'',
                       Chunk ''890123456789012345678'']).
         57 = py_percent n 50 \<and> \<bar>57 - n * 100 div 50\<bar> \<le> 1)"
proof -
  let ?hdrs = "Map.empty :: headers"
  let ?body = "[Chunk ''0123456789012345678901234567x'', Chunk ''890123456789012345678'']"
  let ?env = "\<lparr>temp_dir = ''/tmp'', head_outcome = HeadResponse [''Content-Length'' \<mapsto> ''50''],
       get_outcome = GetResponse 200 ''OK'' ?hdrs ?body,
       open_raises = False, disk_room = 1000\<rparr>"
  let ?url = "''https://example.org/files/report.pdf''"
  have tr: "snd (snd (download_file ?env Map.empty ?url True 1800)) = [57, 100]"
    by code_simp
  then have mem: "57 \<in> set (snd (snd (download_file ?env Map.empty ?url True 1800)))"
    by simp
  have pr: "probe (head_outcome ?env) ?url = Inr (''report.pdf'', 50)"
    by code_simp
  have g: "get_outcome ?env = GetResponse 200 ''OK'' ?hdrs ?body"
    by simp
  have d: "(if (50 :: int) = 0 then content_length ?hdrs else Inr 50) = Inr 50"
    by simp
  have pos: "(0 :: int) < 50"
    by simp
  have rc: "received_counts 0 ?body = [29, 50]"
    by simp
  from download_file_percentage [OF pr g d pos mem] rc mem show ?thesis
    by auto
qed

text \<open>
  C4 as stated fails twice. With 50 bytes declared and chunks of 29 and 21 bytes the
  callback receives 57 and 100, where integer floor division gives 58 for 29 of 50.
  With 100 bytes declared and a chunk of 200 bytes the callback receives 200.
\<close>

theorem download_file_percentage_counterexample:
  "snd (snd (download_file
      \<lparr>temp_dir = ''/tmp'', head_outcome = HeadResponse [''Content-Length'' \<mapsto> ''50''],
       get_outcome = GetResponse 200 ''OK'' Map.empty
                       [Chunk (replicate 29 (CHR ''x'')), Chunk (replicate 21 (CHR ''x''))],
       open_raises = False, disk_room = 1000\<rparr>
      Map.empty ''https://example.org/files/report.pdf'' True 1800)) = [57, 100]
   \<and> (29 * 100 div 50 :: int) = 58
   \<and> snd (snd (download_file
      \<lparr>temp_dir = ''/tmp'', head_outcome = HeadResponse [''Content-Length'' \<mapsto> ''100''],
       get_outcome = GetResponse 200 ''OK'' Map.empty [Chunk (replicate 200 (CHR ''x''))],
       open_raises = False, disk_room = 1000\<rparr>
      Map.empty ''https://example.org/files/report.pdf'' True 1800)) = [200]"
  by code_simp

section \<open>Cleanup after a failure\<close>

lemma remove_if_exists_gone: "remove_if_exists fs p p = None"
  by (simp add: remove_if_exists_def)

lemma content_length_error: "content_length hdrs = Inl err \<Longrightarrow> \<not> classified err"
  by (auto simp add: content_length_def classified_def split: option.splits)

lemma probe_error: "probe outcome url = Inl err \<Longrightarrow> \<not> classified err"
  by (auto simp add: probe_def Let_def dest: content_length_error
      split: probe_outcome.splits sum.splits)

lemma fetch_cleanup:
  assumes "fetch env fs local_path total_size0 has_callback timeout = (Inl e, fs', trace)"
    and "classified e"
  shows "fs' local_path = None"
  using assms
  by (auto simp add: fetch_def remove_if_exists_gone dest: content_length_error
      split: get_outcome.splits if_splits sum.splits prod.splits loop_exit.splits)

lemma on_request_exception_kinds:
  "on_request_exception timeout ConnectTimeout = TimeoutError timeout"
  "on_request_exception timeout ReadTimeout = TimeoutError timeout"
  "on_request_exception timeout (HTTPError status_code reason) = ValueError_HTTP status_code reason"
  "on_request_exception timeout RequestsConnectionError = ConnectionError"
  "on_request_exception timeout (OtherRequestException msg) = RuntimeError (OtherRequestException msg)"
  by (simp_all add: on_request_exception_def is_Timeout_def is_ConnectionError_def)

lemma on_request_exception_classified: "classified (on_request_exception timeout e)"
  by (cases e)
     (simp_all add: on_request_exception_def classified_def is_Timeout_def is_ConnectionError_def)

text \<open>
  C1. Whenever \<open>download_file\<close> ends with one of the exceptions its handlers raise
  (timeout, HTTP status, connection failure, other request failure, failure to write),
  no file is left at the local path, the temporary directory joined with the resolved
  filename.
\<close>

theorem download_file_cleanup:
  assumes "download_file env fs url has_callback timeout = (Inl e, fs', trace)"
    and "classified e"
  shows "\<exists>filename total_size.
           probe (head_outcome env) url = Inr (filename, total_size)
           \<and> fs' (path_join (temp_dir env) filename) = None"
proof (cases "probe (head_outcome env) url")
  case (Inl err)
  with assms(1) have "e = err" by (simp add: download_file_def)
  with Inl assms(2) show ?thesis using probe_error by blast
next
  case (Inr r)
  obtain filename total_size where r: "r = (filename, total_size)" by (cases r)
  from assms(1) Inr r
  have "fetch env fs (path_join (temp_dir env) filename) total_size has_callback timeout
          = (Inl e, fs', trace)"
    by (simp add: download_file_def)
  from fetch_cleanup [OF this assms(2)] Inr r show ?thesis by simp
qed

theorem download_file_cleanup_witness:
  "fst (download_file
      \<lparr>temp_dir = ''/tmp'', head_outcome = HeadRaises ConnectTimeout,
       get_outcome = GetResponse 200 ''OK'' [''Content-Length'' \<mapsto> ''6'']
                       [Chunk ''abc'', Chunk ''def''],
       open_raises = False, disk_room = 4\<rparr>
      [''/tmp/report.pdf'' \<mapsto> ''old''] ''https://example.org/files/report.pdf?token=xyz'' True 1800)
     = Inl OSError_write
   \<and> fst (snd (download_file
      \<lparr>temp_dir = ''/tmp'', head_outcome = HeadRaises ConnectTimeout,
       get_outcome = GetResponse 200 ''OK'' [''Content-Length'' \<mapsto> ''6'']
                       [Chunk ''abc'', Chunk ''def''],
       open_raises = False, disk_room = 4\<rparr>
      [''/tmp/report.pdf'' \<mapsto> ''old''] ''https://example.org/files/report.pdf?token=xyz'' True 1800))
       ''/tmp/report.pdf'' = None"
proof -
  let ?env = "\<lparr>temp_dir = ''/tmp'', head_outcome = HeadRaises ConnectTimeout,
       get_outcome = GetResponse 200 ''OK'' [''Content-Length'' \<mapsto> ''6'']
                       [Chunk ''abc'', Chunk ''def''],
       open_raises = False, disk_room = 4\<rparr>"
  let ?url = "''https://example.org/files/report.pdf?token=xyz''"
  let ?r = "download_file ?env [''/tmp/report.pdf'' \<mapsto> ''old''] ?url True 1800"
  have res: "fst ?r = Inl OSError_write" by code_simp
  then have run: "?r = (Inl OSError_write, fst (snd ?r), snd (snd ?r))"
    by (metis prod.collapse)
  have cl: "classified OSError_write" by (simp add: classified_def)
  have pr: "probe (head_outcome ?env) ?url = Inr (''report.pdf'', 0)" by code_simp
  have pj: "path_join (temp_dir ?env) ''report.pdf'' = ''/tmp/report.pdf''" by code_simp
  from download_file_cleanup [OF run cl] pr pj have "fst (snd ?r) ''/tmp/report.pdf'' = None"
    by auto
  with res show ?thesis by simp
qed

section \<open>Unknown total size\<close>

lemma iter_content_silent:
  assumes "total_size \<le> 0 \<or> \<not> has_callback"
  shows "reported (snd (iter_content has_callback total_size local_path body s)) = reported s"
  using assms
  by (induction has_callback total_size local_path body s rule: iter_content.induct)
     (auto simp add: Let_def)

lemma fetch_silent:
  assumes "total_size0 = 0"
    and "case get_outcome env of
           GetResponse status_code reason hdrs body \<Rightarrow> content_length hdrs = Inr 0
         | GetRaises e \<Rightarrow> True"
  shows "snd (snd (fetch env fs local_path total_size0 has_callback timeout)) = []"
proof (cases "get_outcome env")
  case (GetRaises e)
  then show ?thesis by (simp add: fetch_def)
next
  case (GetResponse status_code reason hdrs body)
  with assms(2) have cl: "content_length hdrs = Inr 0" by simp
  let ?s0 = "\<lparr>files = fs(local_path \<mapsto> []), room = disk_room env,
      received = 0, last_percent = - 1, reported = []\<rparr>"
  have "reported (snd (iter_content has_callback 0 local_path body ?s0)) = reported ?s0"
    by (rule iter_content_silent) simp
  then have "reported (snd (iter_content has_callback 0 local_path body ?s0)) = []" by simp
  then show ?thesis
    using GetResponse cl assms(1)
    by (auto simp add: fetch_def split: prod.splits loop_exit.splits)
qed

text \<open>
  C8. When the probe gives the total size 0 and the response to the request for the body
  declares no length either, \<open>download_file\<close> never calls the progress callback,
  whatever the body and however the transfer ends.
\<close>

theorem download_file_unknown_size_silent:
  assumes "probe (head_outcome env) url = Inr (filename, 0)"
    and "case get_outcome env of
           GetResponse status_code reason hdrs body \<Rightarrow> content_length hdrs = Inr 0
         | GetRaises e \<Rightarrow> True"
  shows "snd (snd (download_file env fs url has_callback timeout)) = []"
  using assms fetch_silent [of 0 env] by (simp add: download_file_def)

theorem download_file_unknown_size_silent_witness:
  "snd (snd (download_file
      \<lparr>temp_dir = ''/tmp'', head_outcome = HeadRaises ReadTimeout,
       get_outcome = GetResponse 200 ''OK'' Map.empty [Chunk ''abc'', Chunk ''defg''],
       open_raises = False, disk_room = 100\<rparr>
      Map.empty ''https://example.org/a.bin'' True 1800)) = []
   \<and> fst (download_file
      \<lparr>temp_dir = ''/tmp'', head_outcome = HeadRaises ReadTimeout,
       get_outcome = GetResponse 200 ''OK'' Map.empty [Chunk ''abc'', Chunk ''defg''],
       open_raises = False, disk_room = 100\<rparr>
      Map.empty ''https://example.org/a.bin'' True 1800) = Inr ''/tmp/a.bin''"
proof -
  let ?env = "\<lparr>temp_dir = ''/tmp'', head_outcome = HeadRaises ReadTimeout,
       get_outcome = GetResponse 200 ''OK'' Map.empty [Chunk ''abc'', Chunk ''defg''],
       open_raises = False, disk_room = 100\<rparr>"
  have pr: "probe (head_outcome ?env) ''https://example.org/a.bin'' = Inr (''a.bin'', 0)"
    by code_simp
  have g: "case get_outcome ?env of
           GetResponse status_code reason hdrs body \<Rightarrow> content_length hdrs = Inr 0
         | GetRaises e \<Rightarrow> True"
    by (simp add: content_length_def)
  have ok: "fst (download_file ?env Map.empty ''https://example.org/a.bin'' True 1800)
      = Inr ''/tmp/a.bin''"
    by code_simp
  from download_file_unknown_size_silent [OF pr g] ok show ?thesis by simp
qed

section \<open>Progress of a complete transfer\<close>

lemma sorted_wrt_less_le_last:
  fixes xs :: "int list"
  assumes "sorted_wrt (<) xs" "x \<in> set xs"
  shows "x \<le> last xs"
  using assms by (induction xs) (auto simp add: less_imp_le)

lemma sorted_wrt_less_snoc:
  fixes xs :: "int list"
  assumes "sorted_wrt (<) xs" "xs \<noteq> [] \<Longrightarrow> last xs < y"
  shows "sorted_wrt (<) (xs @ [y])"
proof -
  have "x < y" if "x \<in> set xs" for x
  proof -
    from that have "xs \<noteq> []" by auto
    with assms(2) have "last xs < y" by simp
    with sorted_wrt_less_le_last [OF assms(1) that] show ?thesis by simp
  qed
  with assms(1) show ?thesis by (simp add: sorted_wrt_append)
qed

lemma strictly_rising_percentages_length:
  fixes xs :: "int list"
  assumes "sorted_wrt (<) xs" "list_all (\<lambda>p. 0 \<le> p \<and> p \<le> 100) xs"
  shows "length xs \<le> 101"
proof -
  have d: "distinct xs" using assms(1) by (simp add: strict_sorted_iff)
  have "set xs \<subseteq> {0..100}" using assms(2) by (auto simp add: list_all_iff)
  then have "card (set xs) \<le> card {0..100::int}" by (intro card_mono) simp_all
  then show ?thesis using d by (simp add: distinct_card)
qed

lemma progress_inv_report:
  assumes "progress_inv total_size s" "0 < total_size" "0 < k" "received s + k \<le> total_size"
    and "last_percent s < py_percent (received s + k) total_size"
  shows "progress_inv total_size
           (s\<lparr>files := f, room := rm, received := received s + k,
              reported := reported s @ [py_percent (received s + k) total_size],
              last_percent := py_percent (received s + k) total_size\<rparr>)"
proof -
  let ?cur = "py_percent (received s + k) total_size"
  have r: "0 \<le> received s" using assms(1) by (simp add: progress_inv_def)
  have "0 \<le> ?cur" using assms(2) r assms(3) by (intro py_percent_nonneg) simp_all
  moreover have "?cur \<le> 100" using assms(2) r assms(3,4) by (intro py_percent_le_100) simp_all
  moreover have "sorted_wrt (<) (reported s @ [?cur])"
    using assms(1,5) by (intro sorted_wrt_less_snoc) (auto simp add: progress_inv_def)
  ultimately show ?thesis
    using assms(1) r assms(3) by (simp add: progress_inv_def)
qed

lemma progress_inv_keep:
  assumes "progress_inv total_size s" "0 < k"
    and "\<not> last_percent s < py_percent (received s + k) total_size"
  shows "progress_inv total_size (s\<lparr>files := f, room := rm, received := received s + k\<rparr>)"
  using assms by (simp add: progress_inv_def)

lemma iter_content_completes:
  assumes "progress_inv total_size s" "0 < total_size"
    and "received s + (\<Sum>c\<leftarrow>chunks. int (length c)) \<le> total_size"
    and "(\<Sum>c\<leftarrow>chunks. length c) \<le> room s"
  shows "\<exists>s'. iter_content True total_size path (map Chunk chunks) s = (Completed, s')
           \<and> progress_inv total_size s'
           \<and> received s' = received s + (\<Sum>c\<leftarrow>chunks. int (length c))"
  using assms
proof (induction chunks arbitrary: s)
  case Nil
  then show ?case by simp
next
  case (Cons c cs)
  show ?case
  proof (cases "c = []")
    case True
    with Cons.IH [of s] Cons.prems show ?thesis by simp
  next
    case False
    let ?k = "int (length c)"
    have k: "0 < ?k" using False by simp
    have fits: "\<not> length c > room s" using Cons.prems(4) by simp
    have le: "received s + ?k \<le> total_size"
    proof -
      have "0 \<le> (\<Sum>c\<leftarrow>cs. int (length c))" by (rule sum_list_nonneg) auto
      with Cons.prems(3) show ?thesis by simp
    qed
    let ?f = "(files s)(path \<mapsto> (case files s path of None \<Rightarrow> [] | Some d \<Rightarrow> d) @ c)"
    let ?rm = "room s - length c"
    show ?thesis
    proof (cases "last_percent s < py_percent (received s + ?k) total_size")
      case True
      let ?s2 = "s\<lparr>files := ?f, room := ?rm, received := received s + ?k,
              reported := reported s @ [py_percent (received s + ?k) total_size],
              last_percent := py_percent (received s + ?k) total_size\<rparr>"
      have inv: "progress_inv total_size ?s2"
        using Cons.prems(1,2) k le True by (rule progress_inv_report)
      have "\<exists>s'. iter_content True total_size path (map Chunk cs) ?s2 = (Completed, s')
           \<and> progress_inv total_size s'
           \<and> received s' = received ?s2 + (\<Sum>c\<leftarrow>cs. int (length c))"
        using inv Cons.prems(2) Cons.prems(3,4) by (intro Cons.IH) simp_all
      then show ?thesis
        using False fits True Cons.prems(2) by (simp add: Let_def add.assoc)
    next
      case no: False
      let ?s1 = "s\<lparr>files := ?f, room := ?rm, received := received s + ?k\<rparr>"
      have inv: "progress_inv total_size ?s1"
        using Cons.prems(1) k no by (rule progress_inv_keep)
      have "\<exists>s'. iter_content True total_size path (map Chunk cs) ?s1 = (Completed, s')
           \<and> progress_inv total_size s'
           \<and> received s' = received ?s1 + (\<Sum>c\<leftarrow>cs. int (length c))"
        using inv Cons.prems(2) Cons.prems(3,4) by (intro Cons.IH) simp_all
      then show ?thesis
        using False fits no by (simp add: Let_def add.assoc)
    qed
  qed
qed

lemma progress_inv_done:
  assumes "progress_inv total_size s" "0 < total_size" "received s = total_size"
  shows "last_percent s = 100 \<and> reported s \<noteq> [] \<and> last (reported s) = 100"
proof -
  from assms have ge: "100 \<le> last_percent s"
    by (simp add: progress_inv_def py_percent_full)
  then have ne: "reported s \<noteq> []" using assms(1) by (auto simp add: progress_inv_def)
  then have lp: "last_percent s = last (reported s)" using assms(1) by (simp add: progress_inv_def)
  have "last (reported s) \<in> set (reported s)" using ne by simp
  then have "last (reported s) \<le> 100" using assms(1) by (auto simp add: progress_inv_def list_all_iff)
  with ge lp ne show ?thesis by simp
qed

text \<open>
  C2. When the chunks of the body add up to the declared positive total size and nothing
  fails, \<open>download_file\<close> returns the local path, and the percentages passed to the
  callback rise strictly, end with 100 and are at most 101.
\<close>

theorem download_file_progress:
  assumes "probe (head_outcome env) url = Inr (filename, total0)"
    and "get_outcome env = GetResponse status_code reason hdrs (map Chunk chunks)"
    and "\<not> (400 \<le> status_code \<and> status_code < 600)"
    and "(if total0 = 0 then content_length hdrs else Inr total0) = Inr total_size"
    and "0 < total_size"
    and "(\<Sum>c\<leftarrow>chunks. int (length c)) = total_size"
    and "\<not> open_raises env"
    and "(\<Sum>c\<leftarrow>chunks. length c) \<le> disk_room env"
  shows "\<exists>fs' trace.
           download_file env fs url True timeout
             = (Inr (path_join (temp_dir env) filename), fs', trace)
           \<and> sorted_wrt (<) trace \<and> trace \<noteq> [] \<and> last trace = 100 \<and> length trace \<le> 101"
proof -
  let ?path = "path_join (temp_dir env) filename"
  let ?s0 = "\<lparr>files = fs(?path \<mapsto> []), room = disk_room env,
      received = 0, last_percent = - 1, reported = []\<rparr>"
  have inv0: "progress_inv total_size ?s0" by (simp add: progress_inv_def)
  have "\<exists>s'. iter_content True total_size ?path (map Chunk chunks) ?s0 = (Completed, s')
           \<and> progress_inv total_size s'
           \<and> received s' = received ?s0 + (\<Sum>c\<leftarrow>chunks. int (length c))"
    using inv0 assms(5) assms(6,8) by (intro iter_content_completes) simp_all
  then obtain s' where run: "iter_content True total_size ?path (map Chunk chunks) ?s0 = (Completed, s')"
    and inv: "progress_inv total_size s'" and rec: "received s' = total_size"
    using assms(6) by auto
  from progress_inv_done [OF inv assms(5) rec]
  have fin: "last_percent s' = 100" "reported s' \<noteq> []" "last (reported s') = 100" by simp_all
  have len: "length (reported s') \<le> 101"
    using inv by (intro strictly_rising_percentages_length) (simp_all add: progress_inv_def)
  have srt: "sorted_wrt (<) (reported s')" using inv by (simp add: progress_inv_def)
  have "download_file env fs url True timeout = (Inr ?path, files s', reported s')"
    using assms(1,2,3,4,7) run fin(1) by (simp add: download_file_def fetch_def)
  with srt fin len show ?thesis by simp
qed

theorem download_file_progress_witness:
  "fst (download_file
      \<lparr>temp_dir = ''/tmp'', head_outcome = HeadResponse [''Content-Length'' \<mapsto> ''50''],
       get_outcome = GetResponse 200 ''OK'' Map.empty [Chunk ''0123456789012345678901234567'',
                       Chunk ''8901234567890123456789''],
       open_raises = False, disk_room = 1000\<rparr>
      Map.empty ''https://example.org/files/report.pdf?token=xyz'' True 1800)
     = Inr ''/tmp/report.pdf''
   \<and> last (snd (snd (download_file
      \<lparr>temp_dir = ''/tmp'', head_outcome = HeadResponse [''Content-Length'' \<mapsto> ''50''],
       get_outcome = GetResponse 200 ''OK'' Map.empty [Chunk ''0123456789012345678901234567'',
                       Chunk ''8901234567890123456789''],
       open_raises = False, disk_room = 1000\<rparr>
      Map.empty ''https://example.org/files/report.pdf?token=xyz'' True 1800))) = 100"
proof -
  let ?chunks = "[''0123456789012345678901234567'', ''8901234567890123456789'']"
  let ?hdrs = "Map.empty :: headers"
  let ?env = "\<lparr>temp_dir = ''/tmp'', head_outcome = HeadResponse [''Content-Length'' \<mapsto> ''50''],
       get_outcome = GetResponse 200 ''OK'' ?hdrs (map Chunk ?chunks),
       open_raises = False, disk_room = 1000\<rparr>"
  let ?url = "''https://example.org/files/report.pdf?token=xyz''"
  have pr: "probe (head_outcome ?env) ?url = Inr (''report.pdf'', 50)"
    by code_simp
  have g: "get_outcome ?env = GetResponse 200 ''OK'' ?hdrs (map Chunk ?chunks)"
    by simp
  have st: "\<not> (400 \<le> (200 :: int) \<and> (200 :: int) < 600)"
    by simp
  have d: "(if (50 :: int) = 0 then content_length ?hdrs else Inr 50) = Inr 50"
    by simp
  have pos: "(0 :: int) < 50"
    by simp
  have sm: "(\<Sum>c\<leftarrow>?chunks. int (length c)) = 50"
    by simp
  have op: "\<not> open_raises ?env"
    by simp
  have rm: "(\<Sum>c\<leftarrow>?chunks. length c) \<le> disk_room ?env"
    by simp
  have pj: "path_join (temp_dir ?env) ''report.pdf'' = ''/tmp/report.pdf''"
    by code_simp
  from download_file_progress [OF pr g st d pos sm op rm, of Map.empty 1800] pj
  show ?thesis
    by auto
qed

section \<open>Throttling in the progress bridge\<close>

lemma progress_callback_rule:
  assumes "2 \<le> t"
  shows "progress_callback msg_key m t True percent =
           (if (case m msg_key of None \<Rightarrow> True | Some l \<Rightarrow> t - l \<ge> 2) \<or> percent \<ge> 100
            then (Some percent, m(msg_key \<mapsto> t)) else (None, m))"
  using assms by (auto simp add: progress_callback_def MIN_EDIT_DELAY_def split: option.splits)

lemma bridge_throttle_rule:
  assumes "list_all (\<lambda>(t, running, percent). 2 \<le> t \<and> running) events"
  shows "bridge msg_key m events
           = throttle_rule (m msg_key) (map (\<lambda>(t, running, percent). (t, percent)) events)"
  using assms
proof (induction events arbitrary: m)
  case Nil
  then show ?case by simp
next
  case (Cons e events)
  obtain t running percent where e: "e = (t, running, percent)" by (cases e)
  from Cons.prems e have ok: "2 \<le> t" "running"
    and rest: "list_all (\<lambda>(t, running, percent). 2 \<le> t \<and> running) events"
    by simp_all
  show ?case
    using progress_callback_rule [OF ok(1), of msg_key m percent] ok(2) Cons.IH [OF rest]
    by (simp add: e)
qed

lemma throttle_rule_subseq: "subseq (throttle_rule last_forwarded events) events"
  by (induction last_forwarded events rule: throttle_rule.induct) auto

text \<open>
  C7 (as amended). For a job that has forwarded nothing yet, with the clock at 2 or later
  and the event loop running, the events handed to the loop are those the rule selects:
  an event is forwarded exactly when 2 time units have passed since the last forwarded
  one (or none was forwarded yet) or its percent is 100 or more. What is forwarded is a
  subsequence of the events: a suppressed event never shows up later.
\<close>

theorem bridge_throttle_amended:
  assumes "last_update_time msg_key = None"
    and "list_all (\<lambda>(t, running, percent). 2 \<le> t \<and> running) events"
  shows "bridge msg_key last_update_time events
           = throttle_rule None (map (\<lambda>(t, running, percent). (t, percent)) events)
         \<and> subseq (bridge msg_key last_update_time events)
                   (map (\<lambda>(t, running, percent). (t, percent)) events)"
  using bridge_throttle_rule [OF assms(2), of msg_key last_update_time] assms(1)
  by (simp add: throttle_rule_subseq)

theorem bridge_throttle_amended_witness:
  "bridge ''42_7'' Map.empty
      [(1000, True, 10), (2001 / 2, True, 20), (1001, True, 250), (10021 / 10, True, 100),
       (1003, True, 99)]
     = [(1000, 10), (1001, 250), (10021 / 10, 100)]"
proof -
  have ok: "list_all (\<lambda>(t, running, percent). 2 \<le> t \<and> running)
      [(1000 :: rat, True, 10 :: int), (2001 / 2, True, 20), (1001, True, 250),
       (10021 / 10, True, 100), (1003, True, 99)]"
    by simp
  have sp: "throttle_rule None (map (\<lambda>(t, running, percent). (t, percent))
      [(1000 :: rat, True, 10 :: int), (2001 / 2, True, 20), (1001, True, 250),
       (10021 / 10, True, 100), (1003, True, 99)])
     = [(1000, 10), (1001, 250), (10021 / 10, 100)]"
    by code_simp
  have fresh: "(Map.empty :: string \<rightharpoonup> rat) ''42_7'' = None"
    by simp
  from bridge_throttle_amended [OF fresh ok] sp show ?thesis
    by simp
qed

text \<open>
  C7 as stated fails for a percent above 100, which \<open>download_file\<close> does report: with
  100 bytes declared and chunks of 10 and 190 bytes it reports 10 and 200. The event with
  percent 200, half a time unit after the first, is forwarded, while the rule "2 time
  units have passed, or the percent is 100" drops it.
\<close>

theorem bridge_throttle_counterexample:
  "snd (snd (download_file
      \<lparr>temp_dir = ''/tmp'', head_outcome = HeadResponse [''Content-Length'' \<mapsto> ''100''],
       get_outcome = GetResponse 200 ''OK'' Map.empty
                       [Chunk (replicate 10 (CHR ''x'')), Chunk (replicate 190 (CHR ''x''))],
       open_raises = False, disk_room = 1000\<rparr>
      Map.empty ''https://example.org/files/report.pdf'' True 1800)) = [10, 200]
   \<and> bridge ''42_7'' Map.empty [(1000, True, 10), (2001 / 2, True, 200)]
       = [(1000, 10), (2001 / 2, 200)]
   \<and> spec_throttle None [(1000, 10), (2001 / 2, 200)] = [(1000, 10)]"
  by code_simp

end
